theory Spec2Isabelle
  imports Complex_Main "HOL-Library.Char_ord" "HOL-Library.List_Lexorder"
begin

section \<open>KeyValues documents: tokens, trees and the tree parser\<close>

text \<open>
  The development follows \<^verbatim>\<open>backend/steam_library.py\<close> and
  \<^verbatim>\<open>backend/steam_downloads.py\<close>. Python strings are modelled as \<^typ>\<open>string\<close>; the
  character-level primitives (\<^verbatim>\<open>isspace\<close>, \<^verbatim>\<open>casefold\<close>, decimal digits) are given
  their ASCII meaning, so the model covers ASCII text.
\<close>

subsection \<open>Tokens and errors\<close>

text \<open>
  \<^verbatim>\<open>Token = Union[str, _LBrace, _RBrace]\<close>. Every \<^verbatim>\<open>raise ValueError(...)\<close> of the
  tokenizer and of the parser is one constructor of \<open>error\<close>; \<open>UnescapeError\<close> stands for the
  \<^verbatim>\<open>UnicodeDecodeError\<close> (a \<^verbatim>\<open>ValueError\<close>) that \<^verbatim>\<open>_unescape\<close> may raise. The two
  \<^verbatim>\<open>isinstance(tok, str)\<close> guards of the parser cannot fire on a value of type token.
\<close>

datatype token = Str string | LBRACE | RBRACE

datatype error =
    InvalidQuotedString nat
  | UnescapeError
  | UnexpectedLBrace
  | UnexpectedEOFAfterKey string
  | UnexpectedRBraceAfterKey

subsection \<open>\<^verbatim>\<open>tokenize_keyvalues\<close>\<close>

text \<open>
  \<^verbatim>\<open>str.isspace\<close> on one ASCII character: tab to carriage return, the four separators
  \<open>0x1C\<close> to \<open>0x1F\<close>, and the space.
\<close>

definition isspace :: "char \<Rightarrow> bool" where
  "isspace c = (let n = (of_char c :: nat) in (9 \<le> n \<and> n \<le> 13) \<or> (28 \<le> n \<and> n \<le> 32))"

text \<open>
  \<^verbatim>\<open>_QUOTED.match(text, i)\<close> with \<^verbatim>\<open>_QUOTED = "([^"\\]*(?:\\.[^"\\]*)*)"\<close>. \<open>scan_quoted\<close> reads
  the text after the opening quote and returns the length of group 1: a character other than
  quote and backslash is taken, a backslash takes the next character with it unless that is a
  newline (\<^verbatim>\<open>.\<close> matches no newline), and the first quote met closes the match. Each character
  admits one branch of the expression only, so backtracking finds no other match.
\<close>

fun scan_quoted :: "string \<Rightarrow> nat option" where
  "scan_quoted [] = None"
| "scan_quoted (c # cs) =
     (if c = CHR 0x22 then Some 0
      else if c = CHR 0x5C then
        (case cs of
           [] \<Rightarrow> None
         | e # cs' \<Rightarrow> if e = CHR 0x0A then None else map_option (\<lambda>m. m + 2) (scan_quoted cs'))
      else map_option Suc (scan_quoted cs))"

text \<open>\<^verbatim>\<open>text.find(ch, i)\<close>, with \<open>None\<close> for \<^verbatim>\<open>-1\<close>.\<close>

definition find_from :: "string \<Rightarrow> char \<Rightarrow> nat \<Rightarrow> nat option" where
  "find_from text ch i =
     (if ch \<in> set (drop i text)
      then Some (i + length (takeWhile (\<lambda>c. c \<noteq> ch) (drop i text)))
      else None)"

text \<open>The bareword \<^verbatim>\<open>text[i:j]\<close> that the inner \<^verbatim>\<open>while\<close> loop delimits.\<close>

definition bareword :: "string \<Rightarrow> nat \<Rightarrow> string" where
  "bareword text i =
     takeWhile (\<lambda>c. \<not> isspace c \<and> c \<noteq> CHR ''{'' \<and> c \<noteq> CHR ''}'') (drop i text)"

text \<open>
  One turn of the \<^verbatim>\<open>while i < n\<close> loop at offset \<open>i < n\<close>: go on at another offset, yield a
  token and go on, return, or raise. \<^verbatim>\<open>_unescape\<close> decodes with Python's \<^verbatim>\<open>unicode_escape\<close>
  codec, which is not part of the repository: it is the parameter \<open>unescape\<close>, with \<open>None\<close>
  where the codec raises.
\<close>

datatype step = Skip nat | Yield token nat | Return | Raise error

definition tokenize_step :: "(string \<Rightarrow> string option) \<Rightarrow> string \<Rightarrow> nat \<Rightarrow> step" where
  "tokenize_step unescape text i =
     (let c = text ! i; n = length text in
      if isspace c then Skip (i + 1)
      else if c = CHR ''/'' \<and> i + 1 < n \<and> text ! (i + 1) = CHR ''/'' then
        (case find_from text (CHR 0x0A) i of None \<Rightarrow> Return | Some j \<Rightarrow> Skip (j + 1))
      else if c = CHR ''{'' then Yield LBRACE (i + 1)
      else if c = CHR ''}'' then Yield RBRACE (i + 1)
      else if c = CHR 0x22 then
        (case scan_quoted (drop (i + 1) text) of
           None \<Rightarrow> Raise (InvalidQuotedString i)
         | Some m \<Rightarrow>
             (case unescape (take m (drop (i + 1) text)) of
                None \<Rightarrow> Raise UnescapeError
              | Some s \<Rightarrow> Yield (Str s) (i + m + 2)))
      else Yield (Str (bareword text i)) (i + length (bareword text i)))"

lemma tokenize_step_progress:
  assumes "i < length doc"
  shows "tokenize_step unescape doc i = Skip j \<Longrightarrow> i < j"
    and "tokenize_step unescape doc i = Yield t j \<Longrightarrow> i < j"
proof -
  from assms have d: "drop i doc = doc ! i # drop (Suc i) doc"
    by (simp add: Cons_nth_drop_Suc)
  show "tokenize_step unescape doc i = Skip j \<Longrightarrow> i < j"
    by (auto simp: tokenize_step_def Let_def find_from_def split: if_splits option.splits)
  show "tokenize_step unescape doc i = Yield t j \<Longrightarrow> i < j"
    by (auto simp: tokenize_step_def Let_def bareword_def d split: if_splits option.splits)
qed

lemma tokenize_step_measure:
  assumes "i < length doc"
  shows "tokenize_step unescape doc i = Skip j \<Longrightarrow> length doc - j < length doc - i"
    and "tokenize_step unescape doc i = Yield t j \<Longrightarrow> length doc - j < length doc - i"
  using assms tokenize_step_progress [OF assms, of unescape] by (fastforce intro: diff_less_mono2)+

text \<open>
  The generator from offset \<open>i\<close> on: the tokens it yields, and how it ends, by stopping
  (\<open>None\<close>) or by raising (\<open>Some e\<close>).
\<close>

function tokenize_from ::
  "(string \<Rightarrow> string option) \<Rightarrow> string \<Rightarrow> nat \<Rightarrow> token list \<times> error option" where
  "tokenize_from unescape text i =
     (if i < length text then
        (case tokenize_step unescape text i of
           Skip j \<Rightarrow> tokenize_from unescape text j
         | Yield t j \<Rightarrow> apfst ((#) t) (tokenize_from unescape text j)
         | Return \<Rightarrow> ([], None)
         | Raise e \<Rightarrow> ([], Some e))
      else ([], None))"
  by pat_completeness auto
termination
  by (relation "measure (\<lambda>(unescape, text, i). length text - i)")
     (simp_all add: tokenize_step_measure)

declare tokenize_from.simps [simp del]

definition tokenize_keyvalues ::
  "(string \<Rightarrow> string option) \<Rightarrow> string \<Rightarrow> token list \<times> error option" where
  "tokenize_keyvalues unescape text = tokenize_from unescape text 0"

subsection \<open>Trees\<close>

text \<open>
  The parser builds Python dicts whose values are strings or dicts. A dict keeps its keys in
  the order of their first insertion, so a block is an association list with distinct keys.
\<close>

datatype node = Value string | Block "(string \<times> node) list"

type_synonym obj = "(string \<times> node) list"

text \<open>\<^verbatim>\<open>d[k] = v\<close>: an existing key keeps its place and takes the new value, a new key goes last.\<close>

fun dict_set :: "'k \<Rightarrow> 'v \<Rightarrow> ('k \<times> 'v) list \<Rightarrow> ('k \<times> 'v) list" where
  "dict_set k v [] = [(k, v)]"
| "dict_set k v ((k', v') # d) = (if k' = k then (k, v) # d else (k', v') # dict_set k v d)"

text \<open>\<^verbatim>\<open>d.get(k)\<close>, with \<open>None\<close> for Python's \<^verbatim>\<open>None\<close>.\<close>

definition dict_get :: "('k \<times> 'v) list \<Rightarrow> 'k \<Rightarrow> 'v option" where
  "dict_get d k = map_of d k"

subsection \<open>\<^verbatim>\<open>parse_keyvalues\<close>\<close>

text \<open>
  The token iterator is a generator: it yields the tokens of a list and then either stops
  (\<open>None\<close>) or raises (\<open>Some e\<close>); a raise reaches the parser at the \<^verbatim>\<open>next(tokens)\<close> that
  asks for the token after the last one, and the parser does not catch it.

  \<open>parse_object fin obj ts\<close> is the \<^verbatim>\<open>while True\<close> loop of the inner \<^verbatim>\<open>parse_object()\<close> with
  the local dict \<open>obj\<close> and the tokens \<open>ts\<close> still to come; it returns the dict and the tokens
  left in the iterator. The interpreter's limit on the depth of recursion is left out.
\<close>

function (sequential) parse_object ::
  "error option \<Rightarrow> obj \<Rightarrow> token list \<Rightarrow> error + (obj \<times> token list)" where
  "parse_object fin obj [] = (case fin of None \<Rightarrow> Inr (obj, []) | Some e \<Rightarrow> Inl e)"
| "parse_object fin obj (RBRACE # ts) = Inr (obj, ts)"
| "parse_object fin obj (LBRACE # ts) = Inl UnexpectedLBrace"
| "parse_object fin obj [Str key] =
     (case fin of None \<Rightarrow> Inl (UnexpectedEOFAfterKey key) | Some e \<Rightarrow> Inl e)"
| "parse_object fin obj (Str key # LBRACE # ts) =
     (case parse_object fin [] ts of
        Inl e \<Rightarrow> Inl e
      | Inr (sub, rest) \<Rightarrow> parse_object fin (dict_set key (Block sub) obj) rest)"
| "parse_object fin obj (Str key # RBRACE # ts) = Inl UnexpectedRBraceAfterKey"
| "parse_object fin obj (Str key # Str val # ts) =
     parse_object fin (dict_set key (Value val) obj) ts"
  by pat_completeness auto

lemma parse_object_dom_rest:
  "parse_object_dom (fin, obj, ts) \<Longrightarrow> parse_object fin obj ts = Inr (obj', rest)
    \<Longrightarrow> length rest \<le> length ts"
proof (induction fin obj ts arbitrary: obj' rest rule: parse_object.pinduct)
  case (5 fin obj key ts)
  from 5(4) 5(1) obtain sub mid where
    sub: "parse_object fin [] ts = Inr (sub, mid)" and
    out: "parse_object fin (dict_set key (Block sub) obj) mid = Inr (obj', rest)"
    by (auto simp: parse_object.psimps split: sum.splits)
  from 5(2) [OF sub] have "length mid \<le> length ts" .
  moreover from 5(3) [OF sub refl out] have "length rest \<le> length mid" .
  ultimately show ?case by simp
next
  case (7 fin obj key val ts)
  from 7(3) 7(1) have "parse_object fin (dict_set key (Value val) obj) ts = Inr (obj', rest)"
    by (simp add: parse_object.psimps)
  from 7(2) [OF this] show ?case by simp
qed (auto simp: parse_object.psimps split: option.splits)

termination parse_object
  by (relation "measure (\<lambda>(fin, obj, ts). length ts)")
     (auto dest: parse_object_dom_rest)

definition parse_keyvalues :: "token list \<times> error option \<Rightarrow> error + obj" where
  "parse_keyvalues tokens =
     (case parse_object (snd tokens) [] (fst tokens) of
        Inl e \<Rightarrow> Inl e
      | Inr (tree, rest) \<Rightarrow> Inr tree)"


section \<open>Library locator\<close>

text \<open>
  The file system is outside the program: \<open>'p\<close> is the type of \<^verbatim>\<open>pathlib.Path\<close> values with their
  equality, and a \<open>filesystem\<close> gives the operations of \<^verbatim>\<open>pathlib\<close> that the locator calls.
  \<open>joinpath p n\<close> is \<^verbatim>\<open>p / n\<close>, \<open>path_str p\<close> is \<^verbatim>\<open>str(p)\<close>, and \<open>read_text\<close> is \<open>None\<close> where
  \<^verbatim>\<open>path.read_text\<close> raises.
\<close>

record 'p filesystem =
  Path :: "string \<Rightarrow> 'p"
  joinpath :: "'p \<Rightarrow> string \<Rightarrow> 'p"
  expanduser :: "'p \<Rightarrow> 'p"
  is_dir :: "'p \<Rightarrow> bool"
  exists :: "'p \<Rightarrow> bool"
  read_text :: "'p \<Rightarrow> string option"
  path_str :: "'p \<Rightarrow> string"

subsection \<open>\<^verbatim>\<open>discover_library_paths\<close>\<close>

text \<open>The inner \<^verbatim>\<open>add(p)\<close>, with the list \<^verbatim>\<open>libs\<close> that it appends to.\<close>

definition add :: "'p filesystem \<Rightarrow> 'p \<Rightarrow> 'p list \<Rightarrow> 'p list" where
  "add fs p libs =
     (let p' = expanduser fs p in
      if is_dir fs (joinpath fs p' ''steamapps'') \<and> p' \<notin> set libs then libs @ [p'] else libs)"


section \<open>Application records\<close>

subsection \<open>Python's \<^verbatim>\<open>strip\<close>, \<^verbatim>\<open>int\<close> and \<^verbatim>\<open>str\<close> on ASCII text\<close>

definition strip :: "string \<Rightarrow> string" where
  "strip s = rev (dropWhile isspace (rev (dropWhile isspace s)))"





text \<open>\<^verbatim>\<open>str(i)\<close> of an integer, as the f-string \<^verbatim>\<open>f"App {appid}"\<close> formats it.\<close>

function nat_digits :: "nat \<Rightarrow> string" where
  "nat_digits n =
     (if n < 10 then [char_of (48 + n)]
      else nat_digits (n div 10) @ [char_of (48 + n mod 10)])"
  by pat_completeness auto
termination
  by (relation "measure id") auto

definition str_int :: "int \<Rightarrow> string" where
  "str_int i = (if i < 0 then CHR ''-'' # nat_digits (nat (- i)) else nat_digits (nat i))"

subsection \<open>\<^verbatim>\<open>find_cover\<close>\<close>

text \<open>The first of six candidate files in the library cache that exists, as a string.\<close>

definition find_cover :: "'p filesystem \<Rightarrow> 'p \<Rightarrow> int \<Rightarrow> string" where
  "find_cover fs steam_root appid =
     (let cache = joinpath fs (joinpath fs steam_root ''appcache'') ''librarycache'' in
      if \<not> is_dir fs cache then []
      else
        let candidates =
              [joinpath fs cache (str_int appid @ ''_library_600x900.jpg''),
               joinpath fs cache (str_int appid @ ''_library_600x900.png''),
               joinpath fs cache (str_int appid @ ''_library_capsule.jpg''),
               joinpath fs cache (str_int appid @ ''_library_capsule.png''),
               joinpath fs cache (str_int appid @ ''_header.jpg''),
               joinpath fs cache (str_int appid @ ''_header.png'')]
        in case filter (exists fs) candidates of [] \<Rightarrow> [] | c # cs \<Rightarrow> path_str fs c)"

subsection \<open>Values of an \<^verbatim>\<open>AppState\<close> block\<close>




subsection \<open>\<^verbatim>\<open>parse_installed_games\<close>: the record of one manifest\<close>

record Game =
  appid :: int
  name :: string
  installed :: bool
  library_path :: string
  installdir :: string
  state_flags :: int
  size_on_disk :: int
  cover :: string


subsection \<open>\<^verbatim>\<open>merge_games\<close>\<close>

text \<open>
  An owned game is a dict decoded from JSON. A value in it is a string, or some other object,
  of which the code uses the truth value and \<^verbatim>\<open>str()\<close> only; \<open>None\<close> is Python's \<^verbatim>\<open>None\<close>, which
  \<^verbatim>\<open>og.get\<close> also returns for a missing key. \<open>str_or_empty x\<close> is \<^verbatim>\<open>str(x or "")\<close>.
\<close>

datatype pyval = PyStr string | PyObj bool string

definition str_or_empty :: "pyval option \<Rightarrow> string" where
  "str_or_empty x =
     (case x of None \<Rightarrow> [] | Some (PyStr s) \<Rightarrow> s | Some (PyObj t s) \<Rightarrow> if t then s else [])"

text \<open>\<^verbatim>\<open>s.startswith(prefix)\<close>, and \<^verbatim>\<open>s.casefold()\<close> on ASCII text.\<close>

definition startswith :: "string \<Rightarrow> string \<Rightarrow> bool" where
  "startswith s prefix = (take (length prefix) s = prefix)"

definition casefold :: "string \<Rightarrow> string" where
  "casefold s =
     map (\<lambda>c. let n = (of_char c :: nat) in if 65 \<le> n \<and> n \<le> 90 then char_of (n + 32) else c) s"

text \<open>
  \<^verbatim>\<open>Game\<close> objects are mutable and shared: \<^verbatim>\<open>dict(installed)\<close> copies the dict, not the objects
  in it. The heap is the list of all \<^verbatim>\<open>Game\<close> objects, a reference is an index into it, and a
  dict of games maps app ids to references. A reference held by a dict points into the heap.
\<close>

type_synonym ref = nat
type_synonym heap = "Game list"
type_synonym owned_game = "(string \<times> pyval) list"

text \<open>
  One turn of the loop \<^verbatim>\<open>for appid, og in owned.items()\<close> on the heap and the dict \<^verbatim>\<open>merged\<close>:
  the assignment to \<^verbatim>\<open>merged[appid].name\<close> writes into the object that the dict refers to;
  a new \<^verbatim>\<open>Game\<close> is a new object at the end of the heap, and its key goes last in the dict.
\<close>

fun merge_step ::
  "'p filesystem \<Rightarrow> 'p \<Rightarrow> heap \<times> (int \<times> ref) list \<Rightarrow> int \<times> owned_game
    \<Rightarrow> heap \<times> (int \<times> ref) list" where
  "merge_step fs steam_root (h, merged) (aid, og) =
     (case dict_get merged aid of
        Some r \<Rightarrow>
          (case dict_get og ''name'' of
             Some (PyStr n) \<Rightarrow>
               if startswith (name (h ! r)) ''App '' then (h[r := (h ! r)\<lparr>name := n\<rparr>], merged)
               else (h, merged)
           | _ \<Rightarrow> (h, merged))
      | None \<Rightarrow>
          (let stripped = strip (str_or_empty (dict_get og ''name''));
               nm = (if stripped \<noteq> [] then stripped else ''App '' @ str_int aid)
           in (h @ [\<lparr>appid = aid, name = nm, installed = False, library_path = [],
                      installdir = [], state_flags = 0, size_on_disk = 0,
                      cover = find_cover fs steam_root aid\<rparr>],
               merged @ [(aid, length h)])))"

text \<open>The dict \<^verbatim>\<open>merged\<close> and the heap after the loop.\<close>

definition merged_dict ::
  "'p filesystem \<Rightarrow> heap \<Rightarrow> (int \<times> ref) list \<Rightarrow> (int \<times> owned_game) list \<Rightarrow> 'p
    \<Rightarrow> heap \<times> (int \<times> ref) list" where
  "merged_dict fs h installed_games owned steam_root =
     foldl (merge_step fs steam_root) (h, installed_games) owned"

text \<open>
  \<^verbatim>\<open>sorted(merged.values(), key=lambda g: g.name.casefold())\<close>: a stable sort on the casefolded
  name, strings compared character by character. The heap \<open>h\<close> before the call is an argument
  of the model, and the result is the heap after the call and the list of references returned.
\<close>

definition merge_games ::
  "'p filesystem \<Rightarrow> heap \<Rightarrow> (int \<times> ref) list \<Rightarrow> (int \<times> owned_game) list \<Rightarrow> 'p
    \<Rightarrow> heap \<times> ref list" where
  "merge_games fs h installed_games owned steam_root =
     (case merged_dict fs h installed_games owned steam_root of
        (h', merged) \<Rightarrow> (h', sort_key (\<lambda>r. casefold (name (h' ! r))) (map snd merged)))"

subsection \<open>\<^verbatim>\<open>_maybe_download_entry\<close>\<close>



section \<open>Vocabulary of the properties\<close>

subsection \<open>Quotes that open a string, and quotes that close one\<close>

text \<open>
  The offsets at which the tokenizer's loop stands, from offset \<open>i\<close> on. A quote character
  opens a quoted string when the loop stands at it (a quote inside a bareword or a comment
  opens nothing).
\<close>

function loop_offsets :: "(string \<Rightarrow> string option) \<Rightarrow> string \<Rightarrow> nat \<Rightarrow> nat list" where
  "loop_offsets unescape text i =
     (if i < length text then
        i # (case tokenize_step unescape text i of
               Skip j \<Rightarrow> loop_offsets unescape text j
             | Yield t j \<Rightarrow> loop_offsets unescape text j
             | Return \<Rightarrow> []
             | Raise e \<Rightarrow> [])
      else [])"
  by pat_completeness auto
termination
  by (relation "measure (\<lambda>(unescape, text, i). length text - i)")
     (simp_all add: tokenize_step_measure)

declare loop_offsets.simps [simp del]

text \<open>
  In the words of the specification: the quote at index \<open>k\<close> of \<open>s\<close> is unescaped when the
  backslashes that stand immediately before it are even in number.
\<close>

definition unescaped_quote :: "string \<Rightarrow> nat \<Rightarrow> bool" where
  "unescaped_quote s k \<longleftrightarrow>
     k < length s \<and> s ! k = CHR 0x22
     \<and> even (length (takeWhile (\<lambda>c. c = CHR 0x5C) (rev (take k s))))"

subsection \<open>Where the parser expects a key\<close>

text \<open>
  \<open>key_depth d pre = Some d'\<close>: a parser that stands where a key is expected inside \<open>d\<close> open
  nested blocks and reads all of \<open>pre\<close> as complete key/value pairs, block openings after a key
  and block closings, again stands where a key is expected, now inside \<open>d'\<close> open nested blocks.
  Depth \<open>0\<close> is the top level of the document.
\<close>

fun key_depth :: "nat \<Rightarrow> token list \<Rightarrow> nat option" where
  "key_depth d [] = Some d"
| "key_depth d (Str k # Str v # ts) = key_depth d ts"
| "key_depth d (Str k # LBRACE # ts) = key_depth (Suc d) ts"
| "key_depth d (RBRACE # ts) = (case d of 0 \<Rightarrow> None | Suc d' \<Rightarrow> key_depth d' ts)"
| "key_depth d ts = None"

text \<open>
  The pending calls of \<^verbatim>\<open>parse_object()\<close> as a stack: each frame is the dict of an enclosing
  block and the key under which the block being read will be stored. \<open>run\<close> reads a prefix
  of the tokens into such a stack, \<open>resume\<close> lets the pending calls of a stack finish on the
  tokens that follow, and \<open>close_all\<close> returns from all of them at once.
\<close>

fun run ::
  "(obj \<times> string) list \<Rightarrow> obj \<Rightarrow> token list \<Rightarrow> ((obj \<times> string) list \<times> obj) option" where
  "run stk obj [] = Some (stk, obj)"
| "run stk obj (Str k # Str v # ts) = run stk (dict_set k (Value v) obj) ts"
| "run stk obj (Str k # LBRACE # ts) = run ((obj, k) # stk) [] ts"
| "run ((pobj, k) # stk) obj (RBRACE # ts) = run stk (dict_set k (Block obj) pobj) ts"
| "run stk obj ts = None"

fun resume ::
  "error option \<Rightarrow> (obj \<times> string) list \<Rightarrow> obj \<Rightarrow> token list
    \<Rightarrow> error + (obj \<times> token list)" where
  "resume fin [] obj ts = parse_object fin obj ts"
| "resume fin ((pobj, key) # stk) obj ts =
     (case parse_object fin obj ts of
        Inl e \<Rightarrow> Inl e
      | Inr (sub, rest) \<Rightarrow> resume fin stk (dict_set key (Block sub) pobj) rest)"

fun close_all :: "(obj \<times> string) list \<Rightarrow> obj \<Rightarrow> obj" where
  "close_all [] obj = obj"
| "close_all ((pobj, key) # stk) obj = close_all stk (dict_set key (Block obj) pobj)"

text \<open>
  The block of a tree that a list of keys leads to, from the root of the document down:
  \<^verbatim>\<open>tree[k1][k2]...\<close>, when every key on the way is bound to a block.
\<close>

fun lookup_path :: "string list \<Rightarrow> obj \<Rightarrow> node option" where
  "lookup_path [] d = Some (Block d)"
| "lookup_path (k # ks) d =
     (case dict_get d k of Some (Block sub) \<Rightarrow> lookup_path ks sub | _ \<Rightarrow> None)"

subsection \<open>Documents with repeated keys\<close>

text \<open>
  A document as it is written: the key/value pairs of each block in source order, a key
  possibly several times. \<open>body_tokens\<close> is its token stream.
\<close>

fun body_tokens :: "(string \<times> node) list \<Rightarrow> token list"
  and node_tokens :: "node \<Rightarrow> token list" where
  "body_tokens [] = []"
| "body_tokens ((k, v) # kvs) = Str k # node_tokens v @ body_tokens kvs"
| "node_tokens (Value s) = [Str s]"
| "node_tokens (Block kvs) = LBRACE # body_tokens kvs @ [RBRACE]"

text \<open>
  The duplicate-key rule in the words of the specification: the keys of a block in the order
  of their first occurrence, each with the value of its last occurrence; in every block of
  the tree.
\<close>

fun first_occurrences :: "'a list \<Rightarrow> 'a list" where
  "first_occurrences [] = []"
| "first_occurrences (x # xs) = x # removeAll x (first_occurrences xs)"

definition last_wins :: "('k \<times> 'v) list \<Rightarrow> ('k \<times> 'v) list" where
  "last_wins kvs =
     map (\<lambda>k. (k, the (map_of (rev kvs) k))) (first_occurrences (map fst kvs))"

primrec last_wins_tree :: "node \<Rightarrow> node" where
  "last_wins_tree (Value s) = Value s"
| "last_wins_tree (Block kvs) = Block (last_wins (map (map_prod id last_wins_tree) kvs))"

subsection \<open>Library descriptors\<close>



text \<open>A file system of string paths with no directory and no file in it.\<close>

definition empty_fs :: "string filesystem" where
  "empty_fs = \<lparr>Path = (\<lambda>s. s), joinpath = (\<lambda>p n. p @ ''/'' @ n), expanduser = (\<lambda>p. p),
                is_dir = (\<lambda>p. False), exists = (\<lambda>p. False), read_text = (\<lambda>p. None),
                path_str = (\<lambda>p. p)\<rparr>"

subsection \<open>Numeric fields\<close>


subsection \<open>Dicts of games\<close>

text \<open>
  What a Python dict of distinct \<^verbatim>\<open>Game\<close> objects is in the heap model: keys occur once, no
  object is shared between two keys, and every reference points into the heap.
\<close>

definition dict_ok :: "heap \<Rightarrow> (int \<times> ref) list \<Rightarrow> bool" where
  "dict_ok h d \<longleftrightarrow>
     distinct (map fst d) \<and> distinct (map snd d) \<and> (\<forall>r \<in> set (map snd d). r < length h)"

section \<open>Properties of the tokenizer\<close>

lemma scan_quoted_unterminated:
  "even (length (takeWhile (\<lambda>c. c = CHR 0x5C) (rev p)))
    \<Longrightarrow> (\<And>k. \<not> unescaped_quote (p @ s) (length p + k))
    \<Longrightarrow> scan_quoted s = None"
proof (induction s arbitrary: p rule: scan_quoted.induct)
  case 1
  show ?case by simp
next
  case (2 c cs)
  show ?case
  proof (cases "c = CHR 0x22")
    case True
    with "2.prems"(1) have "unescaped_quote (p @ c # cs) (length p + 0)"
      by (simp add: unescaped_quote_def)
    with "2.prems"(2) show ?thesis by blast
  next
    case quote: False
    show ?thesis
    proof (cases "c = CHR 0x5C")
      case bs: True
      show ?thesis
      proof (cases cs)
        case Nil
        with quote bs show ?thesis by simp
      next
        case (Cons e cs')
        show ?thesis
        proof (cases "e = CHR 0x0A")
          case True
          with quote bs Cons show ?thesis by simp
        next
          case False
          have ev: "even (length (takeWhile (\<lambda>c. c = CHR 0x5C) (rev (p @ [c, e]))))"
            using "2.prems"(1) bs by simp
          have nq: "\<not> unescaped_quote ((p @ [c, e]) @ cs') (length (p @ [c, e]) + k)" for k
            using "2.prems"(2) [of "k + 2"] Cons by (simp add: add.commute add.left_commute)
          from "2.IH"(1) [OF quote bs Cons False ev nq]
          show ?thesis using quote bs Cons False by simp
        qed
      qed
    next
      case False
      have ev: "even (length (takeWhile (\<lambda>c. c = CHR 0x5C) (rev (p @ [c]))))"
        using False by simp
      have nq: "\<not> unescaped_quote ((p @ [c]) @ cs) (length (p @ [c]) + k)" for k
        using "2.prems"(2) [of "k + 1"] by (simp add: add.commute add.left_commute)
      from "2.IH"(2) [OF quote False ev nq]
      show ?thesis using quote False by simp
    qed
  qed
qed

lemma tokenize_from_offsets:
  "j \<in> set (loop_offsets unescape doc i)
    \<Longrightarrow> snd (tokenize_from unescape doc i) = snd (tokenize_from unescape doc j)"
proof (induction unescape doc i rule: loop_offsets.induct)
  case (1 unescape doc i)
  show ?case
  proof (cases "j = i")
    case False
    with "1.prems" have lt: "i < length doc"
      and mem: "j \<in> set (case tokenize_step unescape doc i of
               Skip j \<Rightarrow> loop_offsets unescape doc j
             | Yield t j \<Rightarrow> loop_offsets unescape doc j
             | Return \<Rightarrow> []
             | Raise e \<Rightarrow> [])"
      by (auto simp: loop_offsets.simps [of unescape doc i] split: if_splits)
    show ?thesis
    proof (cases "tokenize_step unescape doc i")
      case (Skip j')
      with mem "1.IH"(1) [OF lt Skip] lt show ?thesis
        by (simp add: tokenize_from.simps [of unescape doc i])
    next
      case (Yield t j')
      with mem "1.IH"(2) [OF lt Yield] lt show ?thesis
        by (simp add: tokenize_from.simps [of unescape doc i])
    qed (use mem in simp_all)
  qed simp
qed

lemma loop_offsets_less: "j \<in> set (loop_offsets unescape doc i) \<Longrightarrow> j < length doc"
proof (induction unescape doc i rule: loop_offsets.induct)
  case (1 unescape doc i)
  then show ?case
    by (subst (asm) (3) loop_offsets.simps) (auto split: if_splits step.splits)
qed

lemma isspace_quote: "\<not> isspace (CHR 0x22)"
  by (simp add: isspace_def)

lemma tokenize_unterminated_quote:
  assumes reach: "i \<in> set (loop_offsets unescape doc 0)"
    and quote: "doc ! i = CHR 0x22"
    and unterm: "\<forall>k. \<not> unescaped_quote (drop (Suc i) doc) k"
  shows "snd (tokenize_keyvalues unescape doc) = Some (InvalidQuotedString i)"
proof -
  have lt: "i < length doc" using reach by (rule loop_offsets_less)
  have "scan_quoted (drop (Suc i) doc) = None"
    using scan_quoted_unterminated [of "[]" "drop (Suc i) doc"] unterm by simp
  then have "tokenize_step unescape doc i = Raise (InvalidQuotedString i)"
    using quote by (simp add: tokenize_step_def isspace_quote)
  then have "tokenize_from unescape doc i = ([], Some (InvalidQuotedString i))"
    using lt by (simp add: tokenize_from.simps [of unescape doc i])
  with tokenize_from_offsets [OF reach] show ?thesis
    by (simp add: tokenize_keyvalues_def)
qed

lemma no_quote_no_unescaped_quote: "CHR 0x22 \<notin> set s \<Longrightarrow> \<not> unescaped_quote s k"
  by (metis nth_mem unescaped_quote_def)

section \<open>Properties of the tree parser\<close>

subsection \<open>Dicts\<close>

lemma map_of_dict_set: "map_of (dict_set k v d) = (map_of d)(k \<mapsto> v)"
  by (induction d) auto

lemma keys_dict_set:
  "map fst (dict_set k v d) = (if k \<in> set (map fst d) then map fst d else map fst d @ [k])"
proof (induction d)
  case (Cons kv d)
  then show ?case by (cases kv) (simp split: if_splits)
qed simp

lemma distinct_dict_set: "distinct (map fst d) \<Longrightarrow> distinct (map fst (dict_set k v d))"
  by (simp add: keys_dict_set)

lemma set_first_occurrences [simp]: "set (first_occurrences xs) = set xs"
  by (induction xs) auto

lemma distinct_first_occurrences [simp]: "distinct (first_occurrences xs)"
  by (induction xs) (auto simp: distinct_removeAll)

lemma first_occurrences_distinct: "distinct xs \<Longrightarrow> first_occurrences xs = xs"
  by (induction xs) auto

lemma first_occurrences_append:
  "first_occurrences (xs @ ys) = first_occurrences xs @ filter (\<lambda>y. y \<notin> set xs) (first_occurrences ys)"
proof (induction xs)
  case (Cons x xs)
  have "removeAll x (filter (\<lambda>y. y \<notin> set xs) zs) = filter (\<lambda>y. y \<notin> set (x # xs)) zs" for zs
    by (induction zs) auto
  with Cons show ?case by simp
qed (simp add: )

lemma first_occurrences_dict_set:
  "first_occurrences (map fst (dict_set k v d) @ ks) = first_occurrences (map fst d @ k # ks)"
proof (cases "k \<in> set (map fst d)")
  case True
  have "filter (\<lambda>y. y \<notin> set (map fst d)) (removeAll k zs) = filter (\<lambda>y. y \<notin> set (map fst d)) zs" for zs
    using True by (induction zs) auto
  with True show ?thesis by (simp add: keys_dict_set first_occurrences_append)
next
  case False
  then show ?thesis by (simp add: keys_dict_set)
qed

lemma map_of_rev_distinct: "distinct (map fst d) \<Longrightarrow> map_of (rev d) = map_of d"
proof (induction d)
  case (Cons kv d)
  obtain k v where kv: "kv = (k, v)" by (cases kv)
  from Cons.prems have "map_of d k = None"
    by (simp add: kv map_of_eq_None_iff)
  with Cons show ?case
    by (auto simp: kv map_add_def fun_eq_iff split: option.splits)
qed simp

lemma last_wins_dict_set:
  assumes "distinct (map fst d)"
  shows "last_wins (dict_set k v d @ kvs) = last_wins (d @ (k, v) # kvs)"
proof -
  have "map_of (rev (dict_set k v d)) = (map_of (rev d))(k \<mapsto> v)"
    using assms by (simp add: map_of_rev_distinct distinct_dict_set map_of_dict_set)
  then have "map_of (rev (dict_set k v d @ kvs)) = map_of (rev (d @ (k, v) # kvs))"
    by (simp add: map_add_def fun_eq_iff split: option.splits)
  moreover have "first_occurrences (map fst (dict_set k v d @ kvs)) = first_occurrences (map fst (d @ (k, v) # kvs))"
    using first_occurrences_dict_set [of k v d "map fst kvs"] by simp
  ultimately show ?thesis unfolding last_wins_def by simp
qed

lemma last_wins_distinct: "distinct (map fst d) \<Longrightarrow> last_wins d = d"
  unfolding last_wins_def
  by (auto simp: first_occurrences_distinct map_of_rev_distinct o_def intro!: map_idI)

lemma foldl_dict_set:
  "distinct (map fst d) \<Longrightarrow> foldl (\<lambda>d (k, v). dict_set k v d) d kvs = last_wins (d @ kvs)"
proof (induction kvs arbitrary: d)
  case Nil
  then show ?case by (simp add: last_wins_distinct)
next
  case (Cons kv kvs)
  obtain k v where kv: "kv = (k, v)" by (cases kv)
  show ?case using Cons.IH [OF distinct_dict_set [OF Cons.prems], of k v]
    by (simp add: kv last_wins_dict_set [OF Cons.prems])
qed

subsection \<open>The parser and its stack of pending calls\<close>

lemma resume_str_str:
  "resume fin stk obj (Str k # Str v # ts) = resume fin stk (dict_set k (Value v) obj) ts"
  by (cases stk) auto

lemma resume_str_lbrace:
  "resume fin stk obj (Str k # LBRACE # ts) = resume fin ((obj, k) # stk) [] ts"
  by (cases stk) (auto split: sum.splits)

lemma resume_rbrace:
  "resume fin ((pobj, k) # stk) obj (RBRACE # ts) = resume fin stk (dict_set k (Block obj) pobj) ts"
  by simp

lemma resume_run:
  "run stk obj pre = Some (stk', obj') \<Longrightarrow> resume fin stk obj (pre @ s) = resume fin stk' obj' s"
proof (induction stk obj pre rule: run.induct)
  case (2 stk obj k v ts)
  then show ?case by (simp add: resume_str_str)
next
  case (3 stk obj k ts)
  then show ?case by (simp add: resume_str_lbrace del: resume.simps)
next
  case (4 pobj k stk obj ts)
  then show ?case by simp
qed simp_all

lemma run_key_depth:
  "key_depth d pre = Some d' \<Longrightarrow> length stk = d
    \<Longrightarrow> \<exists>stk' obj'. run stk obj pre = Some (stk', obj') \<and> length stk' = d'"
proof (induction d pre arbitrary: stk obj rule: key_depth.induct)
  case (4 d ts)
  then show ?case by (cases stk) (auto split: nat.splits)
qed simp_all

lemma resume_error:
  "\<forall>obj. parse_object fin obj s = Inl e \<Longrightarrow> resume fin stk obj s = Inl e"
  by (cases stk) auto

subsection \<open>Parsing a written document\<close>

lemma parse_body_tokens:
  "parse_object fin obj (body_tokens kvs @ s) =
     parse_object fin (foldl (\<lambda>d (k, v). dict_set k v d) obj (map (map_prod id last_wins_tree) kvs)) s"
  and parse_node_tokens:
  "parse_object fin obj (Str k # node_tokens v @ s) =
     parse_object fin (dict_set k (last_wins_tree v) obj) s"
proof (induction kvs and v arbitrary: fin obj s and fin obj k s rule: body_tokens_node_tokens.induct)
  case (4 kvs)
  show ?case using 4 [of fin "[]" "RBRACE # s"]
    by (simp add: foldl_dict_set id_def)
qed simp_all

lemma resume_eof: "resume None stk obj [] = Inr (close_all stk obj, [])"
  by (induction stk arbitrary: obj) auto

lemma resume_close:
  "resume fin stk obj (replicate (length stk) RBRACE @ s) = parse_object fin (close_all stk obj) s"
  by (induction stk arbitrary: obj) auto

lemma parse_object_written:
  "fin = None \<Longrightarrow> parse_object fin obj toks = Inr (obj', rest) \<Longrightarrow>
    \<exists>kvs. obj' = foldl (\<lambda>d (k, v). dict_set k v d) obj (map (map_prod id last_wins_tree) kvs)
        \<and> ((rest = [] \<and> (\<exists>d. toks @ replicate d RBRACE = body_tokens kvs))
           \<or> toks = body_tokens kvs @ RBRACE # rest)"
proof (induction fin obj toks arbitrary: obj' rest rule: parse_object.induct)
  case (1 fin obj)
  then have "obj' = obj" "rest = []" by simp_all
  then have "obj' = foldl (\<lambda>d (k, v). dict_set k v d) obj (map (map_prod id last_wins_tree) [])
      \<and> ((rest = [] \<and> (\<exists>d. [] @ replicate d RBRACE = body_tokens []))
         \<or> [] = body_tokens [] @ RBRACE # rest)"
    by simp
  then show ?case by blast
next
  case (2 fin obj ts)
  then have "obj' = obj" "rest = ts" by simp_all
  then have "obj' = foldl (\<lambda>d (k, v). dict_set k v d) obj (map (map_prod id last_wins_tree) [])
      \<and> ((rest = [] \<and> (\<exists>d. (RBRACE # ts) @ replicate d RBRACE = body_tokens []))
         \<or> RBRACE # ts = body_tokens [] @ RBRACE # rest)"
    by simp
  then show ?case by blast
next
  case (3 fin obj ts)
  then show ?case by simp
next
  case (4 fin obj key)
  then show ?case by simp
next
  case (5 fin obj key ts)
  from "5.prems" obtain sub mid where
    inner: "parse_object fin [] ts = Inr (sub, mid)" and
    outer: "parse_object fin (dict_set key (Block sub) obj) mid = Inr (obj', rest)"
    by (auto split: sum.splits)
  from "5.IH"(1) [OF "5.prems"(1) inner] obtain kvs1 where
    sub: "sub = foldl (\<lambda>d (k, v). dict_set k v d) [] (map (map_prod id last_wins_tree) kvs1)" and
    shape1: "(mid = [] \<and> (\<exists>d. ts @ replicate d RBRACE = body_tokens kvs1))
             \<or> ts = body_tokens kvs1 @ RBRACE # mid"
    by blast
  from "5.IH"(2) [OF inner refl "5.prems"(1) outer] obtain kvs2 where
    obj': "obj' = foldl (\<lambda>d (k, v). dict_set k v d) (dict_set key (Block sub) obj)
                    (map (map_prod id last_wins_tree) kvs2)" and
    shape2: "(rest = [] \<and> (\<exists>d. mid @ replicate d RBRACE = body_tokens kvs2))
             \<or> mid = body_tokens kvs2 @ RBRACE # rest"
    by blast
  have blk: "last_wins_tree (Block kvs1) = Block sub"
    by (simp add: sub foldl_dict_set)
  have res: "obj' = foldl (\<lambda>d (k, v). dict_set k v d) obj
                     (map (map_prod id last_wins_tree) ((key, Block kvs1) # kvs2))"
    using obj' blk by simp
  from shape1 show ?case
  proof
    assume a: "mid = [] \<and> (\<exists>d. ts @ replicate d RBRACE = body_tokens kvs1)"
    then obtain d where d: "ts @ replicate d RBRACE = body_tokens kvs1" by blast
    from a outer "5.prems"(1) have o: "obj' = dict_set key (Block sub) obj" "rest = []" by simp_all
    have "(Str key # LBRACE # ts) @ replicate (Suc d) RBRACE
        = Str key # LBRACE # (ts @ replicate d RBRACE) @ [RBRACE]"
      by (simp add: replicate_append_same)
    then have "(Str key # LBRACE # ts) @ replicate (Suc d) RBRACE = body_tokens [(key, Block kvs1)]"
      by (simp only: d) simp
    moreover have "obj' = foldl (\<lambda>d (k, v). dict_set k v d) obj
                     (map (map_prod id last_wins_tree) [(key, Block kvs1)])"
      using o blk by simp
    ultimately show ?thesis using o(2) by blast
  next
    assume a: "ts = body_tokens kvs1 @ RBRACE # mid"
    from shape2 show ?thesis
    proof
      assume b: "rest = [] \<and> (\<exists>d. mid @ replicate d RBRACE = body_tokens kvs2)"
      then obtain d where d: "mid @ replicate d RBRACE = body_tokens kvs2" by blast
      have "(Str key # LBRACE # ts) @ replicate d RBRACE = body_tokens ((key, Block kvs1) # kvs2)"
        using a d by simp
      with res b show ?thesis by blast
    next
      assume b: "mid = body_tokens kvs2 @ RBRACE # rest"
      have "Str key # LBRACE # ts = body_tokens ((key, Block kvs1) # kvs2) @ RBRACE # rest"
        using a b by simp
      with res show ?thesis by blast
    qed
  qed
next
  case (6 fin obj key ts)
  then show ?case by simp
next
  case (7 fin obj key val ts)
  from "7.prems" have p: "parse_object fin (dict_set key (Value val) obj) ts = Inr (obj', rest)"
    by simp
  from "7.IH" [OF "7.prems"(1) p] obtain kvs where
    obj': "obj' = foldl (\<lambda>d (k, v). dict_set k v d) (dict_set key (Value val) obj)
                    (map (map_prod id last_wins_tree) kvs)" and
    shape: "(rest = [] \<and> (\<exists>d. ts @ replicate d RBRACE = body_tokens kvs))
             \<or> ts = body_tokens kvs @ RBRACE # rest"
    by blast
  have res: "obj' = foldl (\<lambda>d (k, v). dict_set k v d) obj
                     (map (map_prod id last_wins_tree) ((key, Value val) # kvs))"
    using obj' by simp
  from shape show ?case
  proof
    assume b: "rest = [] \<and> (\<exists>d. ts @ replicate d RBRACE = body_tokens kvs)"
    then obtain d where d: "ts @ replicate d RBRACE = body_tokens kvs" by blast
    have "(Str key # Str val # ts) @ replicate d RBRACE = body_tokens ((key, Value val) # kvs)"
      using d by simp
    with res b show ?thesis by blast
  next
    assume b: "ts = body_tokens kvs @ RBRACE # rest"
    have "Str key # Str val # ts = body_tokens ((key, Value val) # kvs) @ RBRACE # rest"
      using b by simp
    with res show ?thesis by blast
  qed
qed

lemma keys_last_wins: "map fst (last_wins kvs) = first_occurrences (map fst kvs)"
  by (simp add: last_wins_def o_def)

lemma map_of_key_fun:
  "map_of (map (\<lambda>k. (k, f k)) ks) k = (if k \<in> set ks then Some (f k) else None)"
  by (induction ks) auto

lemma dict_get_last_wins: "dict_get (last_wins kvs) k = map_of (rev kvs) k"
proof (cases "k \<in> set (map fst kvs)")
  case True
  then have "map_of (rev kvs) k \<noteq> None"
    by (simp add: map_of_eq_None_iff)
  with True show ?thesis
    by (auto simp: dict_get_def last_wins_def map_of_key_fun)
next
  case False
  then have "map_of (rev kvs) k = None"
    by (simp add: map_of_eq_None_iff)
  with False show ?thesis
    by (simp add: dict_get_def last_wins_def map_of_key_fun)
qed

lemma map_of_map_values:
  "map_of (map (map_prod id f) kvs) k = map_option f (map_of kvs k)"
  by (induction kvs) auto

text \<open>
  Claim C4. A document whose blocks repeat keys parses without error, and in every block of
  the result each key stands at the place of its first occurrence and carries the value of
  its last occurrence. Conversely every tree that the parser returns is of this kind: it is
  the last-occurrence tree of the document that the tokens read spell out, closing braces being
  supplied where the stream ends inside a block, and the tokens after a closing brace at the top
  level not being read. The block \<^verbatim>\<open>{"x" "1" "x" "2"}\<close> yields \<open>x \<rightarrow> "2"\<close>, as the body of the
  document (whose root has no braces of its own) and as a nested block.
\<close>

theorem parse_keyvalues_duplicate_keys:
  "(\<exists>tree. parse_keyvalues (body_tokens kvs, None) = Inr tree
      \<and> tree = last_wins (map (map_prod id last_wins_tree) kvs)
      \<and> map fst tree = first_occurrences (map fst kvs)
      \<and> (\<forall>k. dict_get tree k = map_option last_wins_tree (map_of (rev kvs) k)))
   \<and> (parse_keyvalues (toks, None) = Inr parsed
        \<longrightarrow> (\<exists>written. parsed = last_wins (map (map_prod id last_wins_tree) written)
              \<and> ((\<exists>d. toks @ replicate d RBRACE = body_tokens written)
                 \<or> (\<exists>rest. toks = body_tokens written @ RBRACE # rest))))
   \<and> parse_keyvalues ([Str ''x'', Str ''1'', Str ''x'', Str ''2''], None) = Inr [(''x'', Value ''2'')]
   \<and> parse_keyvalues ([Str ''b'', LBRACE, Str ''x'', Str ''1'', Str ''x'', Str ''2'', RBRACE], None)
       = Inr [(''b'', Block [(''x'', Value ''2'')])]"
proof -
  have "parse_keyvalues (body_tokens kvs, None) = Inr (last_wins (map (map_prod id last_wins_tree) kvs))"
    using parse_body_tokens [of None "[]" kvs "[]"]
    by (simp add: parse_keyvalues_def foldl_dict_set)
  moreover have "map fst (last_wins (map (map_prod id last_wins_tree) kvs))
      = first_occurrences (map fst kvs)"
    by (simp add: keys_last_wins o_def)
  moreover have "dict_get (last_wins (map (map_prod id last_wins_tree) kvs)) k
      = map_option last_wins_tree (map_of (rev kvs) k)" for k
    by (simp only: dict_get_last_wins rev_map map_of_map_values)
  moreover have "\<exists>written. parsed = last_wins (map (map_prod id last_wins_tree) written)
              \<and> ((\<exists>d. toks @ replicate d RBRACE = body_tokens written)
                 \<or> (\<exists>rest. toks = body_tokens written @ RBRACE # rest))"
    if "parse_keyvalues (toks, None) = Inr parsed"
  proof -
    from that obtain rest where "parse_object None [] toks = Inr (parsed, rest)"
      by (auto simp: parse_keyvalues_def split: sum.splits)
    from parse_object_written [OF refl this] obtain written where
      "parsed = foldl (\<lambda>d (k, v). dict_set k v d) [] (map (map_prod id last_wins_tree) written)"
      "(rest = [] \<and> (\<exists>d. toks @ replicate d RBRACE = body_tokens written))
         \<or> toks = body_tokens written @ RBRACE # rest"
      by blast
    then show ?thesis by (auto simp: foldl_dict_set)
  qed
  ultimately show ?thesis
    by (simp add: parse_keyvalues_def)
qed

theorem parse_keyvalues_duplicate_keys_witness:
  "parse_keyvalues ([Str ''a'', LBRACE, Str ''x'', Str ''1'', Str ''x'', Str ''2''], None)
     = Inr [(''a'', Block [(''x'', Value ''2'')])]
   \<and> (\<exists>written. [(''a'', Block [(''x'', Value ''2'')])]
          = last_wins (map (map_prod id last_wins_tree) written)
        \<and> ((\<exists>d. [Str ''a'', LBRACE, Str ''x'', Str ''1'', Str ''x'', Str ''2''] @ replicate d RBRACE
                  = body_tokens written)
           \<or> (\<exists>rest. [Str ''a'', LBRACE, Str ''x'', Str ''1'', Str ''x'', Str ''2'']
                  = body_tokens written @ RBRACE # rest)))"
proof -
  have p: "parse_keyvalues ([Str ''a'', LBRACE, Str ''x'', Str ''1'', Str ''x'', Str ''2''], None)
     = Inr [(''a'', Block [(''x'', Value ''2'')])]"
    by (simp add: parse_keyvalues_def)
  from parse_keyvalues_duplicate_keys
    [of "[]" "[Str ''a'', LBRACE, Str ''x'', Str ''1'', Str ''x'', Str ''2'']"
        "[(''a'', Block [(''x'', Value ''2'')])]"] p
  show ?thesis by blast
qed

lemma parse_key_without_value:
  assumes "key_depth 0 pre = Some d"
  shows "parse_keyvalues (pre @ Str k # RBRACE # rest, fin) = Inl UnexpectedRBraceAfterKey
       \<and> parse_keyvalues (pre @ [Str k], None) = Inl (UnexpectedEOFAfterKey k)"
proof -
  from run_key_depth [OF assms, of "[]" "[]"] obtain stk obj where
    r: "run [] [] pre = Some (stk, obj)" by auto
  have "resume fin [] [] (pre @ Str k # RBRACE # rest) = Inl UnexpectedRBraceAfterKey"
    unfolding resume_run [OF r] by (rule resume_error) simp
  moreover have "resume None [] [] (pre @ [Str k]) = Inl (UnexpectedEOFAfterKey k)"
    unfolding resume_run [OF r] by (rule resume_error) simp
  ultimately show ?thesis by (simp add: parse_keyvalues_def)
qed

text \<open>
  Claim C5. When the tokenizer's loop stands at a quote character after which no unescaped
  quote follows, the generator ends by raising \<open>InvalidQuotedString\<close> at the offset of that
  quote (the \<^verbatim>\<open>ValueError\<close> "Invalid quoted string at offset i"). When the parser has read
  a key and the next token is a closing brace, or the stream stops there, the parse fails with
  \<open>UnexpectedRBraceAfterKey\<close> or \<open>UnexpectedEOFAfterKey\<close> and returns no tree.
\<close>

theorem tokenize_parse_failures:
  "(i \<in> set (loop_offsets unescape doc 0) \<and> doc ! i = CHR 0x22
      \<and> (\<forall>k. \<not> unescaped_quote (drop (Suc i) doc) k)
     \<longrightarrow> snd (tokenize_keyvalues unescape doc) = Some (InvalidQuotedString i))
   \<and> (key_depth 0 pre = Some d
     \<longrightarrow> parse_keyvalues (pre @ Str key # RBRACE # rest, fin) = Inl UnexpectedRBraceAfterKey
       \<and> parse_keyvalues (pre @ [Str key], None) = Inl (UnexpectedEOFAfterKey key))"
  using tokenize_unterminated_quote [of i unescape doc]
    parse_key_without_value [of pre d key rest fin]
  by blast

theorem tokenize_parse_failures_witness:
  "(2 \<in> set (loop_offsets Some (''k '' @ [CHR 0x22] @ ''abc'') 0)
      \<and> (''k '' @ [CHR 0x22] @ ''abc'') ! 2 = CHR 0x22
      \<and> (\<forall>k. \<not> unescaped_quote (drop (Suc 2) (''k '' @ [CHR 0x22] @ ''abc'')) k))
   \<and> snd (tokenize_keyvalues Some (''k '' @ [CHR 0x22] @ ''abc'')) = Some (InvalidQuotedString 2)
   \<and> key_depth 0 [Str ''a'', LBRACE] = Some 1
   \<and> parse_keyvalues ([Str ''a'', LBRACE] @ Str ''k'' # RBRACE # [], None) = Inl UnexpectedRBraceAfterKey
   \<and> parse_keyvalues ([Str ''a'', LBRACE] @ [Str ''k''], None) = Inl (UnexpectedEOFAfterKey ''k'')"
proof -
  have a: "2 \<in> set (loop_offsets Some (''k '' @ [CHR 0x22] @ ''abc'') 0)"
    by (simp add: loop_offsets.simps tokenize_step_def isspace_def bareword_def)
  have b: "(''k '' @ [CHR 0x22] @ ''abc'') ! 2 = CHR 0x22" by simp
  have c: "\<forall>k. \<not> unescaped_quote (drop (Suc 2) (''k '' @ [CHR 0x22] @ ''abc'')) k"
    by (simp add: no_quote_no_unescaped_quote)
  have d: "key_depth 0 [Str ''a'', LBRACE] = Some 1" by simp
  show ?thesis
    using a b c d
      tokenize_parse_failures [of 2 Some "''k '' @ [CHR 0x22] @ ''abc''" "[Str ''a'', LBRACE]" 1
        "''k''" "[]" None]
    by blast
qed

text \<open>
  Claim C6, as the code has it. Where a key is expected, at any depth, an opening brace makes
  the parser fail with \<open>UnexpectedLBrace\<close> (the \<^verbatim>\<open>ValueError\<close> "Unexpected '{' while parsing
  object", which carries no position). A closing brace where a key is expected at the top
  level is no error: it ends the parse, the tree read so far is returned, and the tokens after
  the brace are never read.
\<close>

theorem parse_brace_for_key:
  assumes "key_depth 0 pre = Some d"
  shows "parse_keyvalues (pre @ LBRACE # rest, fin) = Inl UnexpectedLBrace
       \<and> (d = 0 \<longrightarrow> (\<exists>tree. parse_keyvalues (pre @ RBRACE # rest, fin) = Inr tree
                       \<and> parse_keyvalues (pre, None) = Inr tree))"
proof -
  from run_key_depth [OF assms, of "[]" "[]"] obtain stk obj where
    r: "run [] [] pre = Some (stk, obj)" and l: "length stk = d" by auto
  have "resume fin [] [] (pre @ LBRACE # rest) = Inl UnexpectedLBrace"
    unfolding resume_run [OF r] by (rule resume_error) simp
  moreover have "resume f [] [] (pre @ s) = parse_object f obj s" if "d = 0" for f s
    using that l by (simp only: resume_run [OF r]) simp
  from this [of fin "RBRACE # rest"] this [of None "[]"]
  have "d = 0 \<longrightarrow> (\<exists>tree. parse_keyvalues (pre @ RBRACE # rest, fin) = Inr tree
                       \<and> parse_keyvalues (pre, None) = Inr tree)"
    by (simp add: parse_keyvalues_def)
  ultimately show ?thesis by (simp add: parse_keyvalues_def)
qed

theorem parse_brace_for_key_witness:
  "key_depth 0 [Str ''a'', Str ''1''] = Some 0
   \<and> parse_keyvalues ([Str ''a'', Str ''1''] @ LBRACE # [Str ''b''], None) = Inl UnexpectedLBrace
   \<and> (\<exists>tree. parse_keyvalues ([Str ''a'', Str ''1''] @ RBRACE # [Str ''b''], None) = Inr tree
         \<and> parse_keyvalues ([Str ''a'', Str ''1''], None) = Inr tree)"
  using parse_brace_for_key [of "[Str ''a'', Str ''1'']" 0 "[Str ''b'']" None] by simp

text \<open>
  A closing brace at the top level, matching no opening brace, is no error: the parser
  returns the truncated tree.
\<close>

theorem parse_top_level_rbrace_counterexample:
  "parse_keyvalues ([Str ''a'', Str ''1'', RBRACE, Str ''b'', Str ''2''], None)
     = Inr [(''a'', Value ''1'')]"
  by (simp add: parse_keyvalues_def)

lemma dict_get_dict_set: "dict_get (dict_set k v d) k = Some v"
  by (simp add: dict_get_def map_of_dict_set)

lemma lookup_path_snoc:
  "lookup_path (ks @ [k]) d =
     (case lookup_path ks d of
        Some (Block sub) \<Rightarrow> (case dict_get sub k of Some (Block b) \<Rightarrow> Some (Block b) | _ \<Rightarrow> None)
      | _ \<Rightarrow> None)"
  by (induction ks arbitrary: d) (auto split: option.splits node.splits)

lemma lookup_path_close_all:
  "lookup_path (rev (map snd stk)) (close_all stk obj) = Some (Block obj)"
  by (induction stk arbitrary: obj) (auto simp: lookup_path_snoc dict_get_dict_set)

text \<open>
  Claim C10. A token stream that ends where a key is expected inside \<open>d > 0\<close> blocks that
  are still open is parsed without error. Reading the stream leaves \<open>d\<close> pending blocks, each
  with the pairs read in it so far and the key it was opened under (\<open>stk\<close>), and the pairs read
  so far in the innermost block (\<open>obj\<close>). The tree returned stores every pending block under
  its key in the block around it: the keys of the open blocks, followed from the root, lead to
  the innermost block, which holds exactly the pairs read so far. It is also the tree that
  the parser returns when the \<open>d\<close> missing closing braces are supplied.
\<close>

theorem parse_eof_in_nested_block:
  assumes "key_depth 0 toks = Some d" and "0 < d"
  shows "\<exists>stk obj. run [] [] toks = Some (stk, obj) \<and> length stk = d
            \<and> parse_keyvalues (toks, None) = Inr (close_all stk obj)
            \<and> lookup_path (rev (map snd stk)) (close_all stk obj) = Some (Block obj)
            \<and> parse_keyvalues (toks @ replicate d RBRACE, None) = Inr (close_all stk obj)"
proof -
  from run_key_depth [OF assms(1), of "[]" "[]"] obtain stk obj where
    r: "run [] [] toks = Some (stk, obj)" and l: "length stk = d" by auto
  have "resume None [] [] (toks @ []) = Inr (close_all stk obj, [])"
    by (simp only: resume_run [OF r] resume_eof)
  then have a: "parse_keyvalues (toks, None) = Inr (close_all stk obj)"
    by (simp add: parse_keyvalues_def)
  have "resume None [] [] (toks @ (replicate d RBRACE @ [])) = Inr (close_all stk obj, [])"
    by (simp only: resume_run [OF r] l [symmetric] resume_close) simp
  then have b: "parse_keyvalues (toks @ replicate d RBRACE, None) = Inr (close_all stk obj)"
    by (simp add: parse_keyvalues_def)
  from r l a b lookup_path_close_all [of stk obj] show ?thesis by blast
qed

theorem parse_eof_in_nested_block_witness:
  "key_depth 0 [Str ''a'', Str ''0'', Str ''b'', LBRACE, Str ''c'', Str ''1'', Str ''d'', LBRACE,
       Str ''e'', Str ''2''] = Some 2 \<and> (0::nat) < 2
   \<and> (\<exists>stk obj. run [] [] [Str ''a'', Str ''0'', Str ''b'', LBRACE, Str ''c'', Str ''1'',
            Str ''d'', LBRACE, Str ''e'', Str ''2''] = Some (stk, obj) \<and> length stk = 2
         \<and> parse_keyvalues ([Str ''a'', Str ''0'', Str ''b'', LBRACE, Str ''c'', Str ''1'',
            Str ''d'', LBRACE, Str ''e'', Str ''2''], None) = Inr (close_all stk obj)
         \<and> lookup_path (rev (map snd stk)) (close_all stk obj) = Some (Block obj)
         \<and> parse_keyvalues ([Str ''a'', Str ''0'', Str ''b'', LBRACE, Str ''c'', Str ''1'',
            Str ''d'', LBRACE, Str ''e'', Str ''2''] @ replicate 2 RBRACE, None)
             = Inr (close_all stk obj))
   \<and> run [] [] [Str ''a'', Str ''0'', Str ''b'', LBRACE, Str ''c'', Str ''1'', Str ''d'', LBRACE,
       Str ''e'', Str ''2'']
      = Some ([([(''c'', Value ''1'')], ''d''), ([(''a'', Value ''0'')], ''b'')],
              [(''e'', Value ''2'')])
   \<and> parse_keyvalues ([Str ''a'', Str ''0'', Str ''b'', LBRACE, Str ''c'', Str ''1'', Str ''d'',
       LBRACE, Str ''e'', Str ''2''], None)
       = Inr [(''a'', Value ''0''),
              (''b'', Block [(''c'', Value ''1''), (''d'', Block [(''e'', Value ''2'')])])]
   \<and> lookup_path [''b'', ''d'']
        [(''a'', Value ''0''),
         (''b'', Block [(''c'', Value ''1''), (''d'', Block [(''e'', Value ''2'')])])]
       = Some (Block [(''e'', Value ''2'')])"
proof -
  let ?toks = "[Str ''a'', Str ''0'', Str ''b'', LBRACE, Str ''c'', Str ''1'', Str ''d'', LBRACE,
       Str ''e'', Str ''2'']"
  have k: "key_depth 0 ?toks = Some 2" by simp
  have r: "run [] [] ?toks
      = Some ([([(''c'', Value ''1'')], ''d''), ([(''a'', Value ''0'')], ''b'')],
              [(''e'', Value ''2'')])"
    by simp
  have p: "parse_keyvalues (?toks, None)
       = Inr [(''a'', Value ''0''),
              (''b'', Block [(''c'', Value ''1''), (''d'', Block [(''e'', Value ''2'')])])]"
    by (simp add: parse_keyvalues_def)
  have l: "lookup_path [''b'', ''d'']
        [(''a'', Value ''0''),
         (''b'', Block [(''c'', Value ''1''), (''d'', Block [(''e'', Value ''2'')])])]
       = Some (Block [(''e'', Value ''2'')])"
    by (simp add: dict_get_def)
  have z: "(0::nat) < 2" by simp
  from parse_eof_in_nested_block [OF k z] k z r p l show ?thesis by blast
qed

section \<open>Properties of the manifest extractor and of the download view\<close>







section \<open>Properties of the library locator\<close>






section \<open>Properties of the reconciler\<close>

subsection \<open>One turn of the loop\<close>

lemma dict_get_None_iff: "dict_get d k = None \<longleftrightarrow> k \<notin> set (map fst d)"
  by (simp add: dict_get_def map_of_eq_None_iff)

lemma dict_get_Some_mem: "dict_get d k = Some v \<Longrightarrow> (k, v) \<in> set d"
  by (simp add: dict_get_def map_of_SomeD)

lemma dict_get_mem: "distinct (map fst d) \<Longrightarrow> (k, v) \<in> set d \<Longrightarrow> dict_get d k = Some v"
  by (simp add: dict_get_def)

lemma dict_get_append: "dict_get d k = Some v \<Longrightarrow> dict_get (d @ e) k = Some v"
  by (simp add: dict_get_def)

lemma merge_step_dict_get:
  "dict_get m k = Some r \<Longrightarrow> dict_get (snd (merge_step fs sr (h, m) item)) k = Some r"
  by (cases item) (auto simp: Let_def dict_get_append split: option.splits pyval.splits)

lemma merge_step_length: "length h \<le> length (fst (merge_step fs sr (h, m) item))"
  by (cases item) (auto simp: Let_def split: option.splits pyval.splits)

lemma merge_step_dict_ok:
  "dict_ok h m \<Longrightarrow> dict_ok (fst (merge_step fs sr (h, m) item)) (snd (merge_step fs sr (h, m) item))"
  by (cases item)
     (auto simp: Let_def dict_ok_def dict_get_None_iff less_Suc_eq
           split: option.splits pyval.splits)

lemma rename_frame:
  "r < length h \<Longrightarrow> (h[r' := (h ! r')\<lparr>name := n\<rparr>] ! r)\<lparr>name := x\<rparr> = (h ! r)\<lparr>name := x\<rparr>"
  by (cases "r' = r") simp_all

lemma merge_step_frame:
  "r < length h \<Longrightarrow> (fst (merge_step fs sr (h, m) item) ! r)\<lparr>name := x\<rparr> = (h ! r)\<lparr>name := x\<rparr>"
  by (cases item) (auto simp: Let_def nth_append rename_frame split: option.splits pyval.splits)

lemma merge_step_other:
  assumes "dict_ok h m" and "dict_get m k = Some r" and "fst item \<noteq> k"
  shows "fst (merge_step fs sr (h, m) item) ! r = h ! r"
proof -
  obtain k' og where item: "item = (k', og)" by (cases item)
  from assms(1,2) have r: "r < length h"
    by (auto simp: dict_ok_def dest!: dict_get_Some_mem)
  have "r' \<noteq> r" if "dict_get m k' = Some r'" for r'
  proof
    assume "r' = r"
    with that assms(2) have "(k', r) \<in> set m" "(k, r) \<in> set m"
      by (auto dest: dict_get_Some_mem)
    with assms(1) have "k' = k"
      unfolding dict_ok_def by (metis eq_key_imp_eq_value distinct_map inj_onD snd_conv fst_conv)
    with assms(3) item show False by simp
  qed
  then show ?thesis using r
    by (auto simp: item Let_def nth_append split: option.splits pyval.splits)
qed

lemma merge_step_rename:
  assumes "dict_get m k = Some r" and "r < length h"
    and "startswith (name (h ! r)) ''App ''" and "dict_get og ''name'' = Some (PyStr n)"
  shows "name (fst (merge_step fs sr (h, m) (k, og)) ! r) = n"
  using assms by simp

declare merge_step.simps [simp del]

subsection \<open>The whole loop\<close>

lemma foldl_merge_dict_get:
  "dict_get m k = Some r \<Longrightarrow> dict_get (snd (foldl (merge_step fs sr) (h, m) items)) k = Some r"
proof (induction items arbitrary: h m)
  case (Cons item items)
  obtain h' m' where s: "merge_step fs sr (h, m) item = (h', m')"
    by (cases "merge_step fs sr (h, m) item")
  have "dict_get (snd (merge_step fs sr (h, m) item)) k = Some r"
    using Cons.prems by (rule merge_step_dict_get)
  with s have "dict_get m' k = Some r" by simp
  from Cons.IH [OF this] show ?case by (simp add: s)
qed simp

lemma foldl_merge_dict_ok:
  "dict_ok h m \<Longrightarrow> dict_ok (fst (foldl (merge_step fs sr) (h, m) items))
                           (snd (foldl (merge_step fs sr) (h, m) items))"
proof (induction items arbitrary: h m)
  case (Cons item items)
  obtain h' m' where s: "merge_step fs sr (h, m) item = (h', m')"
    by (cases "merge_step fs sr (h, m) item")
  have "dict_ok (fst (merge_step fs sr (h, m) item)) (snd (merge_step fs sr (h, m) item))"
    using Cons.prems by (rule merge_step_dict_ok)
  with s have "dict_ok h' m'" by simp
  from Cons.IH [OF this] show ?case by (simp add: s)
qed simp

lemma foldl_merge_frame:
  "r < length h \<Longrightarrow>
     (fst (foldl (merge_step fs sr) (h, m) items) ! r)\<lparr>name := x\<rparr> = (h ! r)\<lparr>name := x\<rparr>"
proof (induction items arbitrary: h m)
  case (Cons item items)
  obtain h' m' where s: "merge_step fs sr (h, m) item = (h', m')"
    by (cases "merge_step fs sr (h, m) item")
  have "length h \<le> length (fst (merge_step fs sr (h, m) item))" by (rule merge_step_length)
  with Cons.prems s have r: "r < length h'" by simp
  have "(fst (merge_step fs sr (h, m) item) ! r)\<lparr>name := x\<rparr> = (h ! r)\<lparr>name := x\<rparr>"
    using Cons.prems by (rule merge_step_frame)
  with Cons.IH [OF r, where m = m'] show ?case by (simp add: s)
qed simp

lemma foldl_merge_other:
  "dict_ok h m \<Longrightarrow> dict_get m k = Some r \<Longrightarrow> k \<notin> set (map fst items)
    \<Longrightarrow> fst (foldl (merge_step fs sr) (h, m) items) ! r = h ! r"
proof (induction items arbitrary: h m)
  case (Cons item items)
  obtain h' m' where s: "merge_step fs sr (h, m) item = (h', m')"
    by (cases "merge_step fs sr (h, m) item")
  from Cons.prems have ne: "fst item \<noteq> k" and rest: "k \<notin> set (map fst items)" by auto
  have "dict_ok (fst (merge_step fs sr (h, m) item)) (snd (merge_step fs sr (h, m) item))"
    using Cons.prems(1) by (rule merge_step_dict_ok)
  with s have ok: "dict_ok h' m'" by simp
  have "dict_get (snd (merge_step fs sr (h, m) item)) k = Some r"
    using Cons.prems(2) by (rule merge_step_dict_get)
  with s have g: "dict_get m' k = Some r" by simp
  have "fst (merge_step fs sr (h, m) item) ! r = h ! r"
    using Cons.prems(1,2) ne by (rule merge_step_other)
  with s have "h' ! r = h ! r" by simp
  with Cons.IH [OF ok g rest] show ?case by (simp add: s)
qed simp

lemma merge_step_keys:
  "map fst (snd (merge_step fs sr (h, m) item)) =
     (if fst item \<in> set (map fst m) then map fst m else map fst m @ [fst item])"
proof (cases "dict_get m (fst item)")
  case None
  then have "fst item \<notin> set (map fst m)"
    by (simp add: dict_get_None_iff)
  with None show ?thesis
    by (cases item) (simp add: Let_def merge_step.simps)
next
  case (Some r)
  then have "fst item \<in> set (map fst m)"
    using dict_get_None_iff [of m "fst item"] by simp
  with Some show ?thesis
    by (cases item) (auto simp: merge_step.simps split: option.splits pyval.splits)
qed

lemma foldl_merge_keys:
  "distinct (map fst items) \<Longrightarrow>
     map fst (snd (foldl (merge_step fs sr) (h, m) items)) =
       map fst m @ filter (\<lambda>k. k \<notin> set (map fst m)) (map fst items)"
proof (induction items arbitrary: h m)
  case (Cons item items)
  obtain h' m' where s: "merge_step fs sr (h, m) item = (h', m')"
    by (cases "merge_step fs sr (h, m) item")
  from Cons.prems have d: "distinct (map fst items)" and ni: "fst item \<notin> set (map fst items)"
    by auto
  have keys: "map fst m' = (if fst item \<in> set (map fst m) then map fst m else map fst m @ [fst item])"
    using merge_step_keys [where fs = fs and sr = sr and h = h and m = m and item = item] s
    by simp
  have "filter (\<lambda>k. k \<notin> set (map fst m')) (map fst items)
      = filter (\<lambda>k. k \<notin> set (map fst m)) (map fst items)"
    using ni by (auto simp: keys intro!: filter_cong)
  with Cons.IH [OF d, where h = h' and m = m'] show ?case
    by (simp add: s keys)
qed simp

lemma startswith_append: "startswith (p @ s) p"
  by (simp add: startswith_def)

lemma merge_games_renamed:
  assumes ok: "dict_ok h inst" and owned: "distinct (map fst owned)"
    and r: "dict_get inst k = Some r"
    and placeholder: "startswith (name (h ! r)) ''App ''"
    and og: "dict_get owned k = Some og"
    and n: "dict_get og ''name'' = Some (PyStr n)"
  shows "r \<in> set (snd (merge_games fs h inst owned sr))"
    and "name (fst (merge_games fs h inst owned sr) ! r) = n"
    and "(fst (merge_games fs h inst owned sr) ! r)\<lparr>name := x\<rparr> = (h ! r)\<lparr>name := x\<rparr>"
proof -
  from og have "(k, og) \<in> set owned" by (rule dict_get_Some_mem)
  then obtain pre post where split: "owned = pre @ (k, og) # post"
    by (auto dest: split_list)
  with owned have npre: "k \<notin> set (map fst pre)" and npost: "k \<notin> set (map fst post)"
    by auto
  from ok r have lt: "r < length h"
    by (auto simp: dict_ok_def dest!: dict_get_Some_mem)
  obtain h1 m1 where s1: "foldl (merge_step fs sr) (h, inst) pre = (h1, m1)"
    by (cases "foldl (merge_step fs sr) (h, inst) pre")
  obtain h2 m2 where s2: "merge_step fs sr (h1, m1) (k, og) = (h2, m2)"
    by (cases "merge_step fs sr (h1, m1) (k, og)")
  obtain h3 m3 where s3: "foldl (merge_step fs sr) (h2, m2) post = (h3, m3)"
    by (cases "foldl (merge_step fs sr) (h2, m2) post")
  have all: "merged_dict fs h inst owned sr = (h3, m3)"
    by (simp only: merged_dict_def split foldl_append foldl_Cons s1 s2 s3)
  have ok1: "dict_ok h1 m1"
    using foldl_merge_dict_ok [OF ok, where fs = fs and sr = sr and items = pre] by (simp add: s1)
  have g1: "dict_get m1 k = Some r"
    using foldl_merge_dict_get [OF r, where fs = fs and sr = sr and h = h and items = pre] by (simp add: s1)
  have e1: "h1 ! r = h ! r"
    using foldl_merge_other [OF ok r npre, where fs = fs and sr = sr] by (simp add: s1)
  from ok1 g1 have lt1: "r < length h1"
    by (auto simp: dict_ok_def dest!: dict_get_Some_mem)
  have ok2: "dict_ok h2 m2"
    using merge_step_dict_ok [OF ok1, where fs = fs and sr = sr and item = "(k, og)"] by (simp add: s2)
  have g2: "dict_get m2 k = Some r"
    using merge_step_dict_get [OF g1, where fs = fs and sr = sr and h = h1 and item = "(k, og)"] by (simp add: s2)
  have n2: "name (h2 ! r) = n"
    using merge_step_rename [OF g1 lt1 _ n, where fs = fs and sr = sr] placeholder by (simp add: s2 e1)
  have e3: "h3 ! r = h2 ! r"
    using foldl_merge_other [OF ok2 g2 npost, where fs = fs and sr = sr] by (simp add: s3)
  have g3: "dict_get m3 k = Some r"
    using foldl_merge_dict_get [OF g2, where fs = fs and sr = sr and h = h2 and items = post] by (simp add: s3)
  from g3 have "(k, r) \<in> set m3" by (rule dict_get_Some_mem)
  then have "r \<in> set (map snd m3)" by force
  then show "r \<in> set (snd (merge_games fs h inst owned sr))"
    by (simp add: merge_games_def all)
  show "name (fst (merge_games fs h inst owned sr) ! r) = n"
    by (simp add: merge_games_def all e3 n2)
  have "(fst (foldl (merge_step fs sr) (h, inst) owned) ! r)\<lparr>name := x\<rparr> = (h ! r)\<lparr>name := x\<rparr>"
    using lt by (rule foldl_merge_frame)
  then show "(fst (merge_games fs h inst owned sr) ! r)\<lparr>name := x\<rparr> = (h ! r)\<lparr>name := x\<rparr>"
    by (simp add: merge_games_def all) (simp add: merged_dict_def [symmetric] all)
qed

lemma merge_games_length:
  assumes "distinct (map fst owned)" and "set (map fst inst) \<inter> set (map fst owned) = {}"
  shows "length (snd (merge_games fs h inst owned sr)) = length inst + length owned"
proof -
  have "filter (\<lambda>k. k \<notin> set (map fst inst)) (map fst owned) = map fst owned"
    using assms(2) by (auto intro!: filter_True)
  with foldl_merge_keys [OF assms(1), where fs = fs and sr = sr and h = h and m = inst]
  have "map fst (snd (merged_dict fs h inst owned sr)) = map fst inst @ map fst owned"
    by (simp add: merged_dict_def)
  then have "length (map fst (snd (merged_dict fs h inst owned sr))) = length inst + length owned"
    by simp
  then show ?thesis
    by (cases "merged_dict fs h inst owned sr") (simp add: merge_games_def)
qed

text \<open>
  Claim C1, as the code has it. The list that \<^verbatim>\<open>merge_games\<close> returns is ordered by casefolded
  name. Records whose casefolded names are equal keep the order of the dict \<^verbatim>\<open>merged\<close>: the
  installed records in the order of the installed dict, then the records made for owned games
  that are not installed, in the order of the owned dict. The app id plays no part in the
  order.
\<close>

theorem merge_games_order:
  "sorted (map (\<lambda>r. casefold (name (fst (merge_games fs h inst owned sr) ! r)))
               (snd (merge_games fs h inst owned sr)))
   \<and> (\<forall>c. filter (\<lambda>r. casefold (name (fst (merge_games fs h inst owned sr) ! r)) = c)
              (snd (merge_games fs h inst owned sr))
          = filter (\<lambda>r. casefold (name (fst (merge_games fs h inst owned sr) ! r)) = c)
              (map snd (snd (merged_dict fs h inst owned sr))))
   \<and> (distinct (map fst owned)
        \<longrightarrow> map fst (snd (merged_dict fs h inst owned sr))
            = map fst inst @ filter (\<lambda>k. k \<notin> set (map fst inst)) (map fst owned))"
proof -
  obtain h' m' where s: "merged_dict fs h inst owned sr = (h', m')"
    by (cases "merged_dict fs h inst owned sr")
  have "distinct (map fst owned)
        \<longrightarrow> map fst (snd (merged_dict fs h inst owned sr))
            = map fst inst @ filter (\<lambda>k. k \<notin> set (map fst inst)) (map fst owned)"
    using foldl_merge_keys [where items = owned and fs = fs and sr = sr and h = h and m = inst]
    by (simp add: merged_dict_def)
  then show ?thesis
    by (simp add: merge_games_def s sort_key_stable)
qed

theorem merge_games_order_witness:
  "distinct (map fst [(7::int, [(''name'', PyStr ''Beta'')]), (5, [(''name'', PyStr ''Five'')])])
   \<and> sorted (map (\<lambda>r. casefold (name (fst (merge_games empty_fs
        [\<lparr>appid = 10, name = ''Zeta'', installed = True, library_path = ''/lib'',
          installdir = ''z'', state_flags = 4, size_on_disk = 1, cover = []\<rparr>,
        \<lparr>appid = 5, name = ''alpha'', installed = True, library_path = ''/lib'',
          installdir = ''a'', state_flags = 4, size_on_disk = 1, cover = []\<rparr>]
        [(10, 0), (5, 1)] [(7, [(''name'', PyStr ''Beta'')]), (5, [(''name'', PyStr ''Five'')])] ''/steam'') ! r)))
       (snd (merge_games empty_fs
        [\<lparr>appid = 10, name = ''Zeta'', installed = True, library_path = ''/lib'',
          installdir = ''z'', state_flags = 4, size_on_disk = 1, cover = []\<rparr>,
        \<lparr>appid = 5, name = ''alpha'', installed = True, library_path = ''/lib'',
          installdir = ''a'', state_flags = 4, size_on_disk = 1, cover = []\<rparr>]
        [(10, 0), (5, 1)] [(7, [(''name'', PyStr ''Beta'')]), (5, [(''name'', PyStr ''Five'')])] ''/steam'')))
   \<and> map fst (snd (merged_dict empty_fs
        [\<lparr>appid = 10, name = ''Zeta'', installed = True, library_path = ''/lib'',
          installdir = ''z'', state_flags = 4, size_on_disk = 1, cover = []\<rparr>,
        \<lparr>appid = 5, name = ''alpha'', installed = True, library_path = ''/lib'',
          installdir = ''a'', state_flags = 4, size_on_disk = 1, cover = []\<rparr>]
        [(10, 0), (5, 1)] [(7, [(''name'', PyStr ''Beta'')]), (5, [(''name'', PyStr ''Five'')])] ''/steam'')) = [10, 5, 7]
   \<and> snd (merge_games empty_fs
        [\<lparr>appid = 10, name = ''Zeta'', installed = True, library_path = ''/lib'',
          installdir = ''z'', state_flags = 4, size_on_disk = 1, cover = []\<rparr>,
        \<lparr>appid = 5, name = ''alpha'', installed = True, library_path = ''/lib'',
          installdir = ''a'', state_flags = 4, size_on_disk = 1, cover = []\<rparr>]
        [(10, 0), (5, 1)] [(7, [(''name'', PyStr ''Beta'')]), (5, [(''name'', PyStr ''Five'')])] ''/steam'') = [1, 2, 0]"
proof -
  let ?H = "[\<lparr>appid = 10, name = ''Zeta'', installed = True, library_path = ''/lib'',
          installdir = ''z'', state_flags = 4, size_on_disk = 1, cover = []\<rparr>,
        \<lparr>appid = 5, name = ''alpha'', installed = True, library_path = ''/lib'',
          installdir = ''a'', state_flags = 4, size_on_disk = 1, cover = []\<rparr>]"
  let ?O = "[(7, [(''name'', PyStr ''Beta'')]), (5, [(''name'', PyStr ''Five'')])]
              :: (int \<times> owned_game) list"
  have d: "distinct (map fst ?O)" by simp
  have o: "snd (merge_games empty_fs ?H [(10, 0), (5, 1)] ?O ''/steam'') = [1, 2, 0]" by code_simp
  note t = merge_games_order [where fs = empty_fs and h = ?H and inst = "[(10, 0), (5, 1)]"
      and owned = ?O and sr = "''/steam''"]
  from t have s: "sorted (map (\<lambda>r. casefold (name (fst (merge_games empty_fs ?H
        [(10, 0), (5, 1)] ?O ''/steam'') ! r))) (snd (merge_games empty_fs ?H [(10, 0), (5, 1)] ?O ''/steam'')))"
    by (rule conjunct1)
  from t d have k: "map fst (snd (merged_dict empty_fs ?H [(10, 0), (5, 1)] ?O ''/steam'')) = [10, 5, 7]"
    by simp
  from d s k o show ?thesis by blast
qed

text \<open>
  Two installed games named \<^verbatim>\<open>Same\<close> (app 10) and \<^verbatim>\<open>same\<close> (app 5), inserted in that order:
  the names are equal case-insensitively, and the result lists app 10 before app 5.
\<close>

theorem merge_games_tie_counterexample:
  "snd (merge_games empty_fs
        [\<lparr>appid = 10, name = ''Same'', installed = True, library_path = ''/lib'',
          installdir = ''s'', state_flags = 4, size_on_disk = 1, cover = []\<rparr>,
        \<lparr>appid = 5, name = ''same'', installed = True, library_path = ''/lib'',
          installdir = ''t'', state_flags = 4, size_on_disk = 1, cover = []\<rparr>]
        [(10, 0), (5, 1)] [] ''/steam'') = [0, 1]
   \<and> casefold ''Same'' = casefold ''same''
   \<and> map appid (map ((!) (fst (merge_games empty_fs
        [\<lparr>appid = 10, name = ''Same'', installed = True, library_path = ''/lib'',
          installdir = ''s'', state_flags = 4, size_on_disk = 1, cover = []\<rparr>,
        \<lparr>appid = 5, name = ''same'', installed = True, library_path = ''/lib'',
          installdir = ''t'', state_flags = 4, size_on_disk = 1, cover = []\<rparr>]
        [(10, 0), (5, 1)] [] ''/steam''))) [0, 1]) = [10, 5]"
  by code_simp

text \<open>
  Claim C2 at a concrete input. The installed record of app 7 is named \<^verbatim>\<open>App 7\<close> before the
  call; the owned set names the app \<^verbatim>\<open>Portal\<close>. After the call the object that the installed
  dict holds for app 7 is named \<^verbatim>\<open>Portal\<close>: \<^verbatim>\<open>merge_games\<close> has written into its input.
\<close>

theorem merge_games_mutates_installed:
  "name ([\<lparr>appid = 7, name = ''App 7'', installed = True, library_path = ''/lib'',
          installdir = ''p'', state_flags = 4, size_on_disk = 1, cover = []\<rparr>] ! 0) = ''App 7''
   \<and> name (fst (merge_games empty_fs
        [\<lparr>appid = 7, name = ''App 7'', installed = True, library_path = ''/lib'',
          installdir = ''p'', state_flags = 4, size_on_disk = 1, cover = []\<rparr>]
        [(7, 0)] [(7, [(''name'', PyStr ''Portal'')])] ''/steam'') ! 0) = ''Portal''"
  by code_simp

text \<open>
  Claim C3. For dicts of games with no shared app id, \<^verbatim>\<open>merge_games\<close> returns as many records as
  both dicts hold together. For an app id that is in both, whose installed record carries the
  placeholder name \<^verbatim>\<open>App <appid>\<close> and whose owned record has a name, the merged record is the
  installed one with the owned name: it is still installed and its library path is unchanged.
\<close>

theorem merge_games_reconcile:
  assumes "dict_ok h inst" and "distinct (map fst owned)"
  shows "(set (map fst inst) \<inter> set (map fst owned) = {}
            \<longrightarrow> length (snd (merge_games fs h inst owned sr)) = length inst + length owned)
       \<and> (dict_get inst k = Some r \<and> name (h ! r) = ''App '' @ str_int (appid (h ! r))
           \<and> installed (h ! r)
           \<and> dict_get owned k = Some og \<and> dict_get og ''name'' = Some (PyStr n)
            \<longrightarrow> r \<in> set (snd (merge_games fs h inst owned sr))
              \<and> name (fst (merge_games fs h inst owned sr) ! r) = n
              \<and> installed (fst (merge_games fs h inst owned sr) ! r)
              \<and> library_path (fst (merge_games fs h inst owned sr) ! r) = library_path (h ! r))"
proof (intro conjI impI)
  assume "set (map fst inst) \<inter> set (map fst owned) = {}"
  with assms(2) show "length (snd (merge_games fs h inst owned sr)) = length inst + length owned"
    by (rule merge_games_length)
next
  assume a: "dict_get inst k = Some r \<and> name (h ! r) = ''App '' @ str_int (appid (h ! r))
           \<and> installed (h ! r)
           \<and> dict_get owned k = Some og \<and> dict_get og ''name'' = Some (PyStr n)"
  then have p: "startswith (name (h ! r)) ''App ''"
    by (simp add: startswith_def)
  from a have r: "dict_get inst k = Some r" and og: "dict_get owned k = Some og"
    and n: "dict_get og ''name'' = Some (PyStr n)"
    by simp_all
  note m = merge_games_renamed [OF assms r p og n]
  show "r \<in> set (snd (merge_games fs h inst owned sr))"
    and "name (fst (merge_games fs h inst owned sr) ! r) = n"
    by (rule m)+
  have f: "(fst (merge_games fs h inst owned sr) ! r)\<lparr>name := []\<rparr> = (h ! r)\<lparr>name := []\<rparr>"
    by (rule m)
  have "installed (fst (merge_games fs h inst owned sr) ! r)
      = installed ((fst (merge_games fs h inst owned sr) ! r)\<lparr>name := []\<rparr>)" by simp
  with a show "installed (fst (merge_games fs h inst owned sr) ! r)"
    by (simp only: f) simp
  have "library_path (fst (merge_games fs h inst owned sr) ! r)
      = library_path ((fst (merge_games fs h inst owned sr) ! r)\<lparr>name := []\<rparr>)" by simp
  then show "library_path (fst (merge_games fs h inst owned sr) ! r) = library_path (h ! r)"
    by (simp only: f) simp
qed

theorem merge_games_reconcile_witness:
  "dict_ok [\<lparr>appid = 7, name = ''App 7'', installed = True, library_path = ''/lib'',
          installdir = ''p'', state_flags = 4, size_on_disk = 1, cover = []\<rparr>] [(7, 0)]
   \<and> distinct (map fst [(9::int, [(''name'', PyStr ''Nine'')])])
   \<and> set (map fst [(7::int, 0::nat)]) \<inter> set (map fst [(9::int, [(''name'', PyStr ''Nine'')])]) = {}
   \<and> length (snd (merge_games empty_fs
        [\<lparr>appid = 7, name = ''App 7'', installed = True, library_path = ''/lib'',
          installdir = ''p'', state_flags = 4, size_on_disk = 1, cover = []\<rparr>]
        [(7, 0)] [(9, [(''name'', PyStr ''Nine'')])] ''/steam'')) = 2
   \<and> distinct (map fst [(7::int, [(''name'', PyStr ''Portal'')])])
   \<and> dict_get [(7::int, 0::nat)] 7 = Some 0
   \<and> dict_get [(7::int, [(''name'', PyStr ''Portal'')])] 7 = Some [(''name'', PyStr ''Portal'')]
   \<and> dict_get [(''name'', PyStr ''Portal'')] ''name'' = Some (PyStr ''Portal'')
   \<and> ''App 7'' = ''App '' @ str_int 7
   \<and> 0 \<in> set (snd (merge_games empty_fs
        [\<lparr>appid = 7, name = ''App 7'', installed = True, library_path = ''/lib'',
          installdir = ''p'', state_flags = 4, size_on_disk = 1, cover = []\<rparr>]
        [(7, 0)] [(7, [(''name'', PyStr ''Portal'')])] ''/steam''))
   \<and> name (fst (merge_games empty_fs
        [\<lparr>appid = 7, name = ''App 7'', installed = True, library_path = ''/lib'',
          installdir = ''p'', state_flags = 4, size_on_disk = 1, cover = []\<rparr>]
        [(7, 0)] [(7, [(''name'', PyStr ''Portal'')])] ''/steam'') ! 0) = ''Portal''
   \<and> installed (fst (merge_games empty_fs
        [\<lparr>appid = 7, name = ''App 7'', installed = True, library_path = ''/lib'',
          installdir = ''p'', state_flags = 4, size_on_disk = 1, cover = []\<rparr>]
        [(7, 0)] [(7, [(''name'', PyStr ''Portal'')])] ''/steam'') ! 0)
   \<and> library_path (fst (merge_games empty_fs
        [\<lparr>appid = 7, name = ''App 7'', installed = True, library_path = ''/lib'',
          installdir = ''p'', state_flags = 4, size_on_disk = 1, cover = []\<rparr>]
        [(7, 0)] [(7, [(''name'', PyStr ''Portal'')])] ''/steam'') ! 0) = ''/lib''"
proof -
  let ?H = "[\<lparr>appid = 7, name = ''App 7'', installed = True, library_path = ''/lib'',
          installdir = ''p'', state_flags = 4, size_on_disk = 1, cover = []\<rparr>]"
  let ?O1 = "[(9, [(''name'', PyStr ''Nine'')])] :: (int \<times> owned_game) list"
  let ?O2 = "[(7, [(''name'', PyStr ''Portal'')])] :: (int \<times> owned_game) list"
  have ok: "dict_ok ?H [(7, 0)]" by (simp add: dict_ok_def)
  have d1: "distinct (map fst ?O1)" and d2: "distinct (map fst ?O2)" by simp_all
  have dj: "set (map fst [(7::int, 0::nat)]) \<inter> set (map fst ?O1) = {}" by simp
  have g: "dict_get [(7::int, 0::nat)] 7 = Some 0"
    "dict_get ?O2 7 = Some [(''name'', PyStr ''Portal'')]"
    "dict_get [(''name'', PyStr ''Portal'')] ''name'' = Some (PyStr ''Portal'')"
    by (simp_all add: dict_get_def)
  have s: "''App 7'' = ''App '' @ str_int 7" by code_simp
  then have p: "name (?H ! 0) = ''App '' @ str_int (appid (?H ! 0))" by simp
  have i: "installed (?H ! 0)" by simp
  from merge_games_reconcile [OF ok d1, where fs = empty_fs and sr = "''/steam''" and k = 7 and r = 0
      and og = "[]" and n = "[]"] dj
  have a: "length (snd (merge_games empty_fs ?H [(7, 0)] ?O1 ''/steam'')) = 2" by simp
  from merge_games_reconcile [OF ok d2, where fs = empty_fs and sr = "''/steam''" and k = 7 and r = 0
      and og = "[(''name'', PyStr ''Portal'')]" and n = "''Portal''"]
    g p i
  have b: "0 \<in> set (snd (merge_games empty_fs ?H [(7, 0)] ?O2 ''/steam''))
    \<and> name (fst (merge_games empty_fs ?H [(7, 0)] ?O2 ''/steam'') ! 0) = ''Portal''
    \<and> installed (fst (merge_games empty_fs ?H [(7, 0)] ?O2 ''/steam'') ! 0)
    \<and> library_path (fst (merge_games empty_fs ?H [(7, 0)] ?O2 ''/steam'') ! 0) = ''/lib''"
    by simp
  from ok d1 d2 dj g s a b show ?thesis by blast
qed

end
